theory Spec2Isabelle
  imports Main "HOL-Library.Multiset" "HOL-Library.Option_ord"
begin

section \<open>The forum's data model\<close>

text \<open>
  The backend of the forum is given by the requirements document: the SQL schema with its
  constraints and triggers, the business logic of \<^verbatim>\<open>POST /api/posts/:id/vote\<close> and the three
  sort orders of \<^verbatim>\<open>GET /api/posts\<close>. The frontend is the React component \<^verbatim>\<open>PostCard\<close>.

  A table is the list of its rows, in the order a sequential scan delivers them; a
  constraint is a check that a statement makes before it writes, and a statement that
  fails a check writes nothing. A \<^verbatim>\<open>UUID\<close> is an opaque identifier (a natural number here),
  a \<^verbatim>\<open>TIMESTAMP\<close> is a number of microseconds since the epoch, and \<^verbatim>\<open>CURRENT_TIMESTAMP\<close> is
  the argument \<open>now\<close> of every statement that reads the clock. The column
  \<^verbatim>\<open>vote_count INTEGER\<close> is an unbounded integer here: leaving the range of a 32-bit integer
  takes more than \<open>2^31\<close> vote rows on one post.

  The \<^verbatim>\<open>users\<close> table belongs to the authentication collaborator and is not modelled: a
  user is known by the identifier that authentication hands over. The surrogate \<^verbatim>\<open>id\<close> and
  the \<^verbatim>\<open>created_at\<close> of \<^verbatim>\<open>votes\<close> and \<^verbatim>\<open>reports\<close> are read by no statement below and are left
  out of their rows.
\<close>

type_synonym uuid = nat
type_synonym timestamp = int

record topics_row =
  topics_id :: uuid
  topics_name :: string
  topics_description :: "string option"
  topics_created_at :: timestamp

text \<open>
  \<^verbatim>\<open>topic_id UUID NOT NULL REFERENCES topics(id) ON DELETE SET NULL\<close>: the column holds
  \<open>None\<close> for SQL's \<^verbatim>\<open>NULL\<close>, which the referential action writes and the \<^verbatim>\<open>NOT NULL\<close>
  constraint then checks.
\<close>

record posts_row =
  posts_id :: uuid
  posts_user_id :: uuid
  posts_topic_id :: "uuid option"
  posts_title :: string
  posts_content :: string
  posts_vote_count :: int
  posts_created_at :: timestamp
  posts_updated_at :: timestamp

record votes_row =
  votes_user_id :: uuid
  votes_post_id :: uuid
  votes_vote_type :: int

record reports_row =
  reports_reporter_id :: "uuid option"
  reports_post_id :: uuid
  reports_reason :: string
  reports_details :: "string option"
  reports_status :: string

record db =
  topics :: "topics_row list"
  posts :: "posts_row list"
  votes :: "votes_row list"
  reports :: "reports_row list"

text \<open>The constraints of the schema, by the names PostgreSQL reports them under.\<close>

datatype db_error =
    votes_vote_type_check
  | unique_user_post_vote
  | votes_post_id_fkey
  | posts_pkey
  | posts_topic_id_not_null
  | posts_topic_id_fkey
  | title_length
  | content_length
  | topics_pkey
  | topics_name_key
  | reports_reason_check
  | reports_details_check
  | unique_user_post_report
  | reports_post_id_fkey
  | value_too_long

section \<open>Triggers on \<^verbatim>\<open>posts\<close> and \<^verbatim>\<open>votes\<close>\<close>

text \<open>
  \<^verbatim>\<open>update_updated_at_column\<close> runs \<^verbatim>\<open>BEFORE UPDATE ON posts FOR EACH ROW\<close>; so every
  \<^verbatim>\<open>UPDATE posts SET ... WHERE ...\<close> is \<open>update_posts\<close>, which passes each changed row through it.
\<close>

definition update_updated_at_column :: "timestamp \<Rightarrow> posts_row \<Rightarrow> posts_row" where
  "update_updated_at_column now NEW = NEW\<lparr>posts_updated_at := now\<rparr>"

definition update_posts ::
  "timestamp \<Rightarrow> (posts_row \<Rightarrow> bool) \<Rightarrow> (posts_row \<Rightarrow> posts_row) \<Rightarrow> posts_row list \<Rightarrow> posts_row list" where
  "update_posts now wh st ps =
     map (\<lambda>p. if wh p then update_updated_at_column now (st p) else p) ps"

text \<open>
  \<^verbatim>\<open>update_post_vote_count\<close> runs \<^verbatim>\<open>AFTER INSERT\<close>, \<^verbatim>\<open>AFTER DELETE\<close> and \<^verbatim>\<open>AFTER UPDATE ON votes
  FOR EACH ROW\<close>. The event carries \<^verbatim>\<open>TG_OP\<close> with the rows \<^verbatim>\<open>OLD\<close> and \<^verbatim>\<open>NEW\<close> it comes with.
\<close>

datatype tg_event = INSERT votes_row | DELETE votes_row | UPDATE votes_row votes_row

fun update_post_vote_count :: "timestamp \<Rightarrow> tg_event \<Rightarrow> posts_row list \<Rightarrow> posts_row list" where
  "update_post_vote_count now (INSERT NEW) ps =
     update_posts now (\<lambda>p. posts_id p = votes_post_id NEW)
       (\<lambda>p. p\<lparr>posts_vote_count := posts_vote_count p + votes_vote_type NEW\<rparr>) ps"
| "update_post_vote_count now (DELETE OLD) ps =
     update_posts now (\<lambda>p. posts_id p = votes_post_id OLD)
       (\<lambda>p. p\<lparr>posts_vote_count := posts_vote_count p - votes_vote_type OLD\<rparr>) ps"
| "update_post_vote_count now (UPDATE OLD NEW) ps =
     update_posts now (\<lambda>p. posts_id p = votes_post_id NEW)
       (\<lambda>p. p\<lparr>posts_vote_count := posts_vote_count p - votes_vote_type OLD + votes_vote_type NEW\<rparr>) ps"

section \<open>Statements on \<^verbatim>\<open>votes\<close>\<close>

definition vote_type_check :: "votes_row \<Rightarrow> bool" where
  "vote_type_check r = (votes_vote_type r = - 1 \<or> votes_vote_type r = 1)"

definition same_user_post :: "uuid \<Rightarrow> uuid \<Rightarrow> votes_row \<Rightarrow> bool" where
  "same_user_post u p r = (votes_user_id r = u \<and> votes_post_id r = p)"

definition find_vote :: "db \<Rightarrow> uuid \<Rightarrow> uuid \<Rightarrow> votes_row option" where
  "find_vote d u p = find (same_user_post u p) (votes d)"

definition find_post :: "db \<Rightarrow> uuid \<Rightarrow> posts_row option" where
  "find_post d p = find (\<lambda>r. posts_id r = p) (posts d)"

text \<open>
  \<^verbatim>\<open>INSERT INTO votes\<close>: the \<^verbatim>\<open>CHECK\<close> on the new row, the unique index, the foreign key to
  \<^verbatim>\<open>posts\<close>; then the row is stored and the trigger runs.
\<close>

definition insert_vote :: "timestamp \<Rightarrow> votes_row \<Rightarrow> db \<Rightarrow> db_error + db" where
  "insert_vote now NEW d =
     (if \<not> vote_type_check NEW then Inl votes_vote_type_check
      else if find_vote d (votes_user_id NEW) (votes_post_id NEW) \<noteq> None then Inl unique_user_post_vote
      else if find_post d (votes_post_id NEW) = None then Inl votes_post_id_fkey
      else Inr (d\<lparr>votes := votes d @ [NEW],
                  posts := update_post_vote_count now (INSERT NEW) (posts d)\<rparr>))"

text \<open>\<^verbatim>\<open>DELETE FROM votes\<close> of one stored row; a row that is not stored deletes nothing.\<close>

definition delete_vote :: "timestamp \<Rightarrow> votes_row \<Rightarrow> db \<Rightarrow> db" where
  "delete_vote now OLD d =
     (if OLD \<in> set (votes d)
      then d\<lparr>votes := remove1 OLD (votes d),
             posts := update_post_vote_count now (DELETE OLD) (posts d)\<rparr>
      else d)"

fun replace1 :: "'a \<Rightarrow> 'a \<Rightarrow> 'a list \<Rightarrow> 'a list" where
  "replace1 x y [] = []"
| "replace1 x y (z # zs) = (if z = x then y # zs else z # replace1 x y zs)"

text \<open>
  \<^verbatim>\<open>UPDATE votes SET vote_type = v\<close> of one stored row, in place; the \<^verbatim>\<open>CHECK\<close> is made on
  the new row.
\<close>

definition update_vote :: "timestamp \<Rightarrow> votes_row \<Rightarrow> int \<Rightarrow> db \<Rightarrow> db_error + db" where
  "update_vote now OLD v d =
     (let NEW = OLD\<lparr>votes_vote_type := v\<rparr> in
      if OLD \<notin> set (votes d) then Inr d
      else if \<not> vote_type_check NEW then Inl votes_vote_type_check
      else Inr (d\<lparr>votes := replace1 OLD NEW (votes d),
                  posts := update_post_vote_count now (UPDATE OLD NEW) (posts d)\<rparr>))"

section \<open>The vote endpoint\<close>

text \<open>
  \<^verbatim>\<open>POST /api/posts/:id/vote\<close>, the operation \<open>submitVote\<close>. The actor is what the
  \<^verbatim>\<open>Authorization\<close> header authenticates to: \<open>None\<close> without a valid token, the one error
  response that the endpoint documents (401 \<^verbatim>\<open>UNAUTHORIZED\<close>). A post that does not exist is
  404 \<^verbatim>\<open>POST_NOT_FOUND\<close>. The endpoint has no validation step: a statement that the database
  rejects fails the request with the database's error, the violated constraint, which the
  document maps to no error code. The rate limit (100 votes per hour per user) is outside
  the model.

  The business logic, as the document gives it:
  \<^verbatim>\<open>
  IF user has no existing vote:
    - Create new vote with value
    - Update post.vote_count (+1 or -1)
  ELSE IF user has existing vote:
    IF new vote == existing vote:
      - Delete vote (toggle off)
      - Update post.vote_count (-1 or +1)
    ELSE IF new vote == 0:
      - Delete vote
      - Update post.vote_count (opposite of existing)
    ELSE:
      - Update vote to new value
      - Update post.vote_count (+2 or -2)
  \<close>
  The lines \<^verbatim>\<open>Update post.vote_count\<close> are the work of the trigger
  \<open>update_post_vote_count\<close> (``Trigger to update post.vote_count automatically''), which
  each of the three statements fires.
\<close>

datatype api_error = UNAUTHORIZED | POST_NOT_FOUND | database_error db_error

record vote_response =
  vote_count :: int
  user_vote :: int

text \<open>
  The success response \<^verbatim>\<open>{"vote_count": ..., "user_vote": ...}\<close> reads the post again after
  the statement, with \<^verbatim>\<open>vote_count\<close> as the trigger has left it; \<^verbatim>\<open>user_vote\<close> is 0 when the
  user has no vote. A request that fails at any point returns the state it started from.
\<close>

definition respond :: "db \<Rightarrow> db \<Rightarrow> uuid \<Rightarrow> int \<Rightarrow> db \<times> (api_error + vote_response)" where
  "respond d0 d p uv =
     (case find_post d p of
        None \<Rightarrow> (d0, Inl POST_NOT_FOUND)
      | Some r \<Rightarrow> (d, Inr \<lparr>vote_count = posts_vote_count r, user_vote = uv\<rparr>))"

definition submitVote ::
  "timestamp \<Rightarrow> db \<Rightarrow> uuid option \<Rightarrow> uuid \<Rightarrow> int \<Rightarrow> db \<times> (api_error + vote_response)" where
  "submitVote now d actor p v =
     (case actor of
        None \<Rightarrow> (d, Inl UNAUTHORIZED)
      | Some u \<Rightarrow>
          (case find_post d p of
             None \<Rightarrow> (d, Inl POST_NOT_FOUND)
           | Some _ \<Rightarrow>
               (case find_vote d u p of
                  None \<Rightarrow>
                    (case insert_vote now \<lparr>votes_user_id = u, votes_post_id = p, votes_vote_type = v\<rparr> d of
                       Inl e \<Rightarrow> (d, Inl (database_error e))
                     | Inr d' \<Rightarrow> respond d d' p v)
                | Some existing \<Rightarrow>
                    if v = votes_vote_type existing then respond d (delete_vote now existing d) p 0
                    else if v = 0 then respond d (delete_vote now existing d) p 0
                    else
                      (case update_vote now existing v d of
                         Inl e \<Rightarrow> (d, Inl (database_error e))
                       | Inr d' \<Rightarrow> respond d d' p v))))"

text \<open>The state after a sequence of calls, one state per call.\<close>

type_synonym vote_call = "timestamp \<times> uuid option \<times> uuid \<times> int"

fun vote_trace :: "db \<Rightarrow> vote_call list \<Rightarrow> db list" where
  "vote_trace d [] = []"
| "vote_trace d ((now, actor, p, v) # cs) =
     (let d' = fst (submitVote now d actor p v) in d' # vote_trace d' cs)"

section \<open>The ledger and the score\<close>

text \<open>
  The live vote rows that reference a post, their sum, and the post's cumulative score
  \<^verbatim>\<open>vote_count\<close>.
\<close>

definition live_votes :: "db \<Rightarrow> uuid \<Rightarrow> votes_row list" where
  "live_votes d p = filter (\<lambda>r. votes_post_id r = p) (votes d)"

definition vote_sum :: "db \<Rightarrow> uuid \<Rightarrow> int" where
  "vote_sum d p = sum_list (map votes_vote_type (live_votes d p))"

definition score :: "db \<Rightarrow> uuid \<Rightarrow> int option" where
  "score d p = map_option posts_vote_count (find_post d p)"

definition score_consistent :: "db \<Rightarrow> bool" where
  "score_consistent d = list_all (\<lambda>r. posts_vote_count r = vote_sum d (posts_id r)) (posts d)"

definition ledger_and_score :: "db \<Rightarrow> votes_row list \<times> (uuid \<times> int) list" where
  "ledger_and_score d = (votes d, map (\<lambda>r. (posts_id r, posts_vote_count r)) (posts d))"

text \<open>The constraints of \<^verbatim>\<open>votes\<close> as properties of a state.\<close>

definition user_post_unique :: "db \<Rightarrow> bool" where
  "user_post_unique d = distinct (map (\<lambda>r. (votes_user_id r, votes_post_id r)) (votes d))"

definition vote_types_checked :: "db \<Rightarrow> bool" where
  "vote_types_checked d = list_all vote_type_check (votes d)"

definition votes_reference_posts :: "db \<Rightarrow> bool" where
  "votes_reference_posts d = list_all (\<lambda>r. find_post d (votes_post_id r) \<noteq> None) (votes d)"

section \<open>Statements on \<^verbatim>\<open>posts\<close>, \<^verbatim>\<open>topics\<close> and \<^verbatim>\<open>reports\<close>\<close>

text \<open>
  \<^verbatim>\<open>INSERT INTO posts\<close> with the defaults of the table: \<^verbatim>\<open>vote_count\<close> 0, both timestamps
  \<^verbatim>\<open>CURRENT_TIMESTAMP\<close>; \<open>new_id\<close> is what \<^verbatim>\<open>gen_random_uuid()\<close> returns.
\<close>

definition insert_post ::
  "timestamp \<Rightarrow> uuid \<Rightarrow> uuid \<Rightarrow> uuid option \<Rightarrow> string \<Rightarrow> string \<Rightarrow> db \<Rightarrow> db_error + db" where
  "insert_post now new_id u t title content d =
     (if t = None then Inl posts_topic_id_not_null
      else if \<not> (5 \<le> length title \<and> length title \<le> 300) then Inl title_length
      else if \<not> (10 \<le> length content \<and> length content \<le> 10000) then Inl content_length
      else if find_post d new_id \<noteq> None then Inl posts_pkey
      else if find (\<lambda>r. Some (topics_id r) = t) (topics d) = None then Inl posts_topic_id_fkey
      else Inr (d\<lparr>posts := posts d @
                  [\<lparr>posts_id = new_id, posts_user_id = u, posts_topic_id = t,
                    posts_title = title, posts_content = content, posts_vote_count = 0,
                    posts_created_at = now, posts_updated_at = now\<rparr>]\<rparr>))"

text \<open>
  \<^verbatim>\<open>DELETE FROM posts WHERE id = p\<close>. The post rows go first; \<^verbatim>\<open>ON DELETE CASCADE\<close> then
  deletes the votes and the reports that reference the post, and every deleted vote row
  fires \<open>update_post_vote_count\<close> on the posts that remain.
\<close>

definition delete_post :: "timestamp \<Rightarrow> uuid \<Rightarrow> db \<Rightarrow> db" where
  "delete_post now p d =
     (let cascaded = filter (\<lambda>r. votes_post_id r = p) (votes d) in
      d\<lparr>posts := fold (\<lambda>OLD. update_post_vote_count now (DELETE OLD)) cascaded
                    (filter (\<lambda>r. posts_id r \<noteq> p) (posts d)),
        votes := filter (\<lambda>r. votes_post_id r \<noteq> p) (votes d),
        reports := filter (\<lambda>r. reports_post_id r \<noteq> p) (reports d)\<rparr>)"

text \<open>
  \<^verbatim>\<open>INSERT INTO topics\<close>; a name longer than its \<^verbatim>\<open>VARCHAR(100)\<close> is refused. (For a post,
  \<^verbatim>\<open>VARCHAR(300)\<close> and the \<^verbatim>\<open>CHECK\<close> \<^verbatim>\<open>title_length\<close> refuse the same titles.)
\<close>

definition insert_topic :: "timestamp \<Rightarrow> uuid \<Rightarrow> string \<Rightarrow> string option \<Rightarrow> db \<Rightarrow> db_error + db" where
  "insert_topic now new_id nm descr d =
     (if 100 < length nm then Inl value_too_long
      else if find (\<lambda>r. topics_id r = new_id) (topics d) \<noteq> None then Inl topics_pkey
      else if find (\<lambda>r. topics_name r = nm) (topics d) \<noteq> None then Inl topics_name_key
      else Inr (d\<lparr>topics := topics d @
                  [\<lparr>topics_id = new_id, topics_name = nm, topics_description = descr,
                    topics_created_at = now\<rparr>]\<rparr>))"

text \<open>
  \<^verbatim>\<open>DELETE FROM topics WHERE id = t\<close>. The referential action \<^verbatim>\<open>ON DELETE SET NULL\<close> updates
  \<^verbatim>\<open>posts.topic_id\<close> of the topic's posts to \<^verbatim>\<open>NULL\<close>; the column is \<^verbatim>\<open>NOT NULL\<close>, so an
  updated row fails that constraint and the statement is aborted as a whole.
\<close>

definition on_delete_set_null :: "timestamp \<Rightarrow> uuid \<Rightarrow> posts_row list \<Rightarrow> posts_row list" where
  "on_delete_set_null now t ps =
     update_posts now (\<lambda>r. posts_topic_id r = Some t) (\<lambda>r. r\<lparr>posts_topic_id := None\<rparr>) ps"

definition delete_topic :: "timestamp \<Rightarrow> uuid \<Rightarrow> db \<Rightarrow> db_error + db" where
  "delete_topic now t d =
     (if find (\<lambda>r. topics_id r = t) (topics d) = None then Inr d
      else if find (\<lambda>r. posts_topic_id r = Some t) (posts d) \<noteq> None then Inl posts_topic_id_not_null
      else Inr (d\<lparr>topics := filter (\<lambda>r. topics_id r \<noteq> t) (topics d),
                  posts := on_delete_set_null now t (posts d)\<rparr>))"

definition reason_values :: "string list" where
  "reason_values = [''spam'', ''harassment'', ''inappropriate'', ''misinformation'', ''other'']"

definition insert_report :: "uuid \<Rightarrow> uuid \<Rightarrow> string \<Rightarrow> string option \<Rightarrow> db \<Rightarrow> db_error + db" where
  "insert_report u p reason details d =
     (if reason \<notin> set reason_values then Inl reports_reason_check
      else if (case details of None \<Rightarrow> False | Some s \<Rightarrow> 500 < length s) then Inl reports_details_check
      else if find (\<lambda>r. reports_reporter_id r = Some u \<and> reports_post_id r = p) (reports d) \<noteq> None
        then Inl unique_user_post_report
      else if find_post d p = None then Inl reports_post_id_fkey
      else Inr (d\<lparr>reports := reports d @
                  [\<lparr>reports_reporter_id = Some u, reports_post_id = p, reports_reason = reason,
                    reports_details = details, reports_status = ''pending''\<rparr>]\<rparr>))"

section \<open>Reachable states\<close>

text \<open>
  The operations that write to the database, and the state that a sequence of them
  reaches from the empty database. A statement that fails leaves the state as it was.
\<close>

datatype operation =
    SubmitVote timestamp "uuid option" uuid int
  | InsertPost timestamp uuid uuid "uuid option" string string
  | DeletePost timestamp uuid
  | InsertTopic timestamp uuid string "string option"
  | DeleteTopic timestamp uuid
  | InsertReport uuid uuid string "string option"

definition keep :: "db \<Rightarrow> db_error + db \<Rightarrow> db" where
  "keep d r = (case r of Inl _ \<Rightarrow> d | Inr d' \<Rightarrow> d')"

fun step :: "db \<Rightarrow> operation \<Rightarrow> db" where
  "step d (SubmitVote now actor p v) = fst (submitVote now d actor p v)"
| "step d (InsertPost now new_id u t title content) = keep d (insert_post now new_id u t title content d)"
| "step d (DeletePost now p) = delete_post now p d"
| "step d (InsertTopic now new_id nm descr) = keep d (insert_topic now new_id nm descr d)"
| "step d (DeleteTopic now t) = keep d (delete_topic now t d)"
| "step d (InsertReport u p reason details) = keep d (insert_report u p reason details d)"

definition empty_db :: db where
  "empty_db = \<lparr>topics = [], posts = [], votes = [], reports = []\<rparr>"

definition run :: "operation list \<Rightarrow> db" where
  "run ops = foldl step empty_db ops"

section \<open>The sort orders of the feed\<close>






section \<open>The post card of the frontend\<close>

text \<open>
  The component \<^verbatim>\<open>PostCard({data, content})\<close>. Its four handlers have empty bodies: a
  handler maps the state of the page to the state after it has run. A rendered element
  has its tag, its \<^verbatim>\<open>className\<close>, its \<^verbatim>\<open>onClick\<close> and its children; a child in braces is
  the JavaScript value itself. The values of the props are of any type \<open>'v\<close>, with
  JavaScript's truthiness \<open>ToBoolean\<close> on it. Reading a field of a prop that is
  \<^verbatim>\<open>undefined\<close> is a \<^verbatim>\<open>TypeError\<close>.
\<close>

datatype ('v, 's) jsx =
    Element string "string option" "('s \<Rightarrow> 's) option" "('v, 's) jsx list"
  | Text string
  | Value 'v
  | Undefined

datatype js_error = TypeError

record 'v data_props =
  data_upvote :: 'v
  data_downvote :: 'v
  data_comments :: 'v
  data_shares :: 'v

record 'v content_props =
  content_post :: 'v
  content_image :: 'v
  content_video :: 'v

text \<open>
  The state of the page around a card: the props it is rendered with and the votes that
  have been sent to \<^verbatim>\<open>POST /api/posts/:id/vote\<close>.
\<close>

record 'v page =
  props_data :: "'v data_props option"
  props_content :: "'v content_props option"
  votes_sent :: "(uuid \<times> int) list"

definition handleUpvote :: "'s \<Rightarrow> 's" where
  "handleUpvote s = s"

definition handleDownvote :: "'s \<Rightarrow> 's" where
  "handleDownvote s = s"

definition handleComment :: "'s \<Rightarrow> 's" where
  "handleComment s = s"

definition handleShare :: "'s \<Rightarrow> 's" where
  "handleShare s = s"

definition handleMultipleMedia :: "'v \<Rightarrow> ('v, 's) jsx" where
  "handleMultipleMedia array = Undefined"

definition PostCard :: "('v \<Rightarrow> bool) \<Rightarrow> 'v page \<Rightarrow> js_error + ('v, 'v page) jsx" where
  "PostCard ToBoolean s =
     (case props_content s of
        None \<Rightarrow> Inl TypeError
      | Some content \<Rightarrow>
          (case props_data s of
             None \<Rightarrow> Inl TypeError
           | Some data \<Rightarrow>
               Inr (Element ''div'' (Some ''post-card'') None
                 [Element ''div'' (Some ''post-content'') None
                    [if ToBoolean (content_post content)
                       then Element ''p'' None None [Value (content_post content)]
                       else Text [],
                     handleMultipleMedia (content_image content),
                     handleMultipleMedia (content_video content)],
                  Element ''div'' (Some ''postButtons'') None
                    [Element ''button'' None (Some handleUpvote)
                       [Text ''upvote '', Value (data_upvote data)],
                     Element ''button'' None (Some handleDownvote)
                       [Text ''downvote '', Value (data_downvote data)],
                     Element ''button'' None (Some handleComment)
                       [Text ''Comment '', Value (data_comments data)],
                     Element ''button'' None (Some handleShare)
                       [Text ''Share '', Value (data_shares data)]]])))"

text \<open>The buttons of a rendered tree, and a click on an element: its \<^verbatim>\<open>onClick\<close> runs.\<close>

fun buttons :: "('v, 's) jsx \<Rightarrow> ('v, 's) jsx list" where
  "buttons (Element tag cls h cs) =
     (if tag = ''button'' then [Element tag cls h cs] else []) @ concat (map buttons cs)"
| "buttons _ = []"

fun click :: "('v, 's) jsx \<Rightarrow> 's \<Rightarrow> 's" where
  "click (Element tag cls (Some h) cs) s = h s"
| "click _ s = s"

fun on_click :: "('v, 's) jsx \<Rightarrow> ('s \<Rightarrow> 's) option" where
  "on_click (Element tag cls h cs) = h"
| "on_click _ = None"

section \<open>Example states\<close>

definition example_db :: db where
  "example_db =
     \<lparr>topics = [\<lparr>topics_id = 1, topics_name = ''General'',
                  topics_description = Some ''General discussions about anything'',
                  topics_created_at = 0\<rparr>],
      posts = [\<lparr>posts_id = 7, posts_user_id = 1, posts_topic_id = Some 1,
                 posts_title = ''Hello'', posts_content = ''First post'',
                 posts_vote_count = 0, posts_created_at = 10, posts_updated_at = 10\<rparr>],
      votes = [],
      reports = []\<rparr>"

definition example_calls :: "vote_call list" where
  "example_calls =
     [(100, Some 1, 7, 1), (101, Some 2, 7, - 1), (102, Some 1, 7, - 1),
      (103, Some 2, 7, - 1), (104, Some 3, 7, 2), (105, None, 7, 1)]"

definition example_post :: posts_row where
  "example_post =
     \<lparr>posts_id = 7, posts_user_id = 1, posts_topic_id = Some 1,
      posts_title = ''Hello'', posts_content = ''First post'',
      posts_vote_count = 0, posts_created_at = 10, posts_updated_at = 10\<rparr>"

definition example_vote :: votes_row where
  "example_vote = \<lparr>votes_user_id = 1, votes_post_id = 7, votes_vote_type = 1\<rparr>"

definition example_voted_db :: db where
  "example_voted_db =
     example_db\<lparr>posts := [example_post\<lparr>posts_vote_count := 1, posts_updated_at := 100\<rparr>],
                votes := [example_vote]\<rparr>"

definition example_ops :: "operation list" where
  "example_ops =
     [InsertTopic 0 1 ''General'' (Some ''General discussions about anything''),
      InsertPost 10 7 1 (Some 1) ''Hello'' ''First post'',
      SubmitVote 100 (Some 1) 7 1,
      SubmitVote 101 (Some 2) 7 (- 1),
      SubmitVote 102 (Some 2) 7 0,
      SubmitVote 103 (Some 3) 7 0,
      InsertReport 2 7 ''spam'' None,
      DeleteTopic 104 1]"




definition example_page :: "string page" where
  "example_page =
     \<lparr>props_data = Some \<lparr>data_upvote = ''3'', data_downvote = ''1'', data_comments = ''0'',
                          data_shares = ''0''\<rparr>,
      props_content = Some \<lparr>content_post = ''Hello'', content_image = [], content_video = []\<rparr>,
      votes_sent = []\<rparr>"

definition example_card :: "(string, string page) jsx" where
  "example_card =
     Element ''div'' (Some ''post-card'') None
       [Element ''div'' (Some ''post-content'') None
          [Element ''p'' None None [Value ''Hello''], Undefined, Undefined],
        Element ''div'' (Some ''postButtons'') None
          [Element ''button'' None (Some handleUpvote) [Text ''upvote '', Value ''3''],
           Element ''button'' None (Some handleDownvote) [Text ''downvote '', Value ''1''],
           Element ''button'' None (Some handleComment) [Text ''Comment '', Value ''0''],
           Element ''button'' None (Some handleShare) [Text ''Share '', Value ''0'']]]"

section \<open>The score follows the ledger\<close>

lemma update_updated_at_column_fields [simp]:
  "posts_id (update_updated_at_column now r) = posts_id r"
  "posts_vote_count (update_updated_at_column now r) = posts_vote_count r"
  "posts_topic_id (update_updated_at_column now r) = posts_topic_id r"
  by (simp_all add: update_updated_at_column_def)

lemma sum_list_filter_remove1:
  "x \<in> set xs \<Longrightarrow>
   sum_list (map votes_vote_type (filter P (remove1 x xs))) =
   sum_list (map votes_vote_type (filter P xs)) - (if P x then votes_vote_type x else 0)"
  by (induction xs) auto

lemma sum_list_filter_replace1:
  "x \<in> set xs \<Longrightarrow> P y = P x \<Longrightarrow>
   sum_list (map votes_vote_type (filter P (replace1 x y xs))) =
   sum_list (map votes_vote_type (filter P xs))
     + (if P x then votes_vote_type y - votes_vote_type x else 0)"
  by (induction xs) auto

text \<open>
  When the sum of one post's votes moves by \<open>k\<close> and the trigger moves that post's
  \<^verbatim>\<open>vote_count\<close> by \<open>k\<close>, the scores stay with the sums.
\<close>

lemma score_consistent_shift:
  assumes "score_consistent d"
    and "\<And>q. vote_sum d' q = vote_sum d q + (if q = p then k else 0)"
    and "posts d' = update_posts now (\<lambda>r. posts_id r = p)
           (\<lambda>r. r\<lparr>posts_vote_count := g (posts_vote_count r)\<rparr>) (posts d)"
    and "\<And>x. g x = x + k"
  shows "score_consistent d'"
  using assms
  by (auto simp: score_consistent_def update_posts_def list_all_iff)

lemma insert_vote_consistent:
  assumes "score_consistent d" and "insert_vote now NEW d = Inr d'"
  shows "score_consistent d'"
proof (rule score_consistent_shift [OF assms(1), where p = "votes_post_id NEW"
      and k = "votes_vote_type NEW" and now = now and g = "\<lambda>x. x + votes_vote_type NEW"])
  show "vote_sum d' q = vote_sum d q + (if q = votes_post_id NEW then votes_vote_type NEW else 0)" for q
    using assms(2) by (auto simp: insert_vote_def vote_sum_def live_votes_def split: if_splits)
  show "posts d' = update_posts now (\<lambda>r. posts_id r = votes_post_id NEW)
      (\<lambda>r. r\<lparr>posts_vote_count := posts_vote_count r + votes_vote_type NEW\<rparr>) (posts d)"
    using assms(2) by (auto simp: insert_vote_def split: if_splits)
qed simp

lemma delete_vote_consistent:
  assumes "score_consistent d"
  shows "score_consistent (delete_vote now OLD d)"
proof (cases "OLD \<in> set (votes d)")
  case False
  then show ?thesis using assms by (simp add: delete_vote_def)
next
  case True
  show ?thesis
  proof (rule score_consistent_shift [OF assms, where p = "votes_post_id OLD"
        and k = "- votes_vote_type OLD" and now = now and g = "\<lambda>x. x - votes_vote_type OLD"])
    show "vote_sum (delete_vote now OLD d) q =
        vote_sum d q + (if q = votes_post_id OLD then - votes_vote_type OLD else 0)" for q
      using True by (auto simp: delete_vote_def vote_sum_def live_votes_def sum_list_filter_remove1)
    show "posts (delete_vote now OLD d) = update_posts now (\<lambda>r. posts_id r = votes_post_id OLD)
        (\<lambda>r. r\<lparr>posts_vote_count := posts_vote_count r - votes_vote_type OLD\<rparr>) (posts d)"
      using True by (simp add: delete_vote_def)
  qed simp
qed

lemma update_vote_consistent:
  assumes "score_consistent d" and "update_vote now OLD v d = Inr d'"
  shows "score_consistent d'"
proof (cases "OLD \<in> set (votes d)")
  case False
  then show ?thesis using assms by (auto simp: update_vote_def Let_def)
next
  case True
  show ?thesis
  proof (rule score_consistent_shift [OF assms(1), where p = "votes_post_id OLD"
        and k = "v - votes_vote_type OLD" and now = now and g = "\<lambda>x. x - votes_vote_type OLD + v"])
    show "vote_sum d' q = vote_sum d q + (if q = votes_post_id OLD then v - votes_vote_type OLD else 0)" for q
      using True assms(2)
      by (auto simp: update_vote_def Let_def vote_sum_def live_votes_def sum_list_filter_replace1
          split: if_splits)
    show "posts d' = update_posts now (\<lambda>r. posts_id r = votes_post_id OLD)
        (\<lambda>r. r\<lparr>posts_vote_count := posts_vote_count r - votes_vote_type OLD + v\<rparr>) (posts d)"
      using True assms(2) by (auto simp: update_vote_def Let_def split: if_splits)
  qed simp
qed

lemma submitVote_consistent:
  assumes "score_consistent d"
  shows "score_consistent (fst (submitVote now d actor p v))"
proof -
  have r: "\<And>d' uv. score_consistent d' \<Longrightarrow> score_consistent (fst (respond d d' p uv))"
    using assms by (simp add: respond_def split: option.splits)
  show ?thesis
    using assms
    by (auto simp: submitVote_def split: option.splits sum.splits
        intro!: r delete_vote_consistent
        intro: insert_vote_consistent update_vote_consistent)
qed

lemma vote_trace_consistent:
  "score_consistent d \<Longrightarrow> list_all score_consistent (vote_trace d cs)"
proof (induction cs arbitrary: d)
  case Nil
  then show ?case by simp
next
  case (Cons c cs)
  obtain now actor p v where c: "c = (now, actor, p, v)"
    by (cases c) auto
  have "score_consistent (fst (submitVote now d actor p v))"
    using Cons.prems by (rule submitVote_consistent)
  then show ?case
    using Cons.IH c by (simp add: Let_def)
qed

text \<open>
  C1. Starting where every post's \<^verbatim>\<open>vote_count\<close> is the sum of the live vote rows that
  reference it (as it is for a post just created, with \<^verbatim>\<open>vote_count\<close> 0 and no votes, and
  in every reachable state, \<open>run_score_consistent\<close> below),
  after each call of any sequence of \<open>submitVote\<close> calls every post's \<^verbatim>\<open>vote_count\<close> is
  again the sum of the values of the live vote rows that reference it. Rejected calls are
  in the sequence too; they change nothing.
\<close>

theorem score_equals_live_vote_sum_after_each_call:
  assumes "list_all (\<lambda>r. posts_vote_count r = vote_sum d (posts_id r)) (posts d)"
  shows "list_all (\<lambda>d'. list_all (\<lambda>r. posts_vote_count r = vote_sum d' (posts_id r)) (posts d'))
           (vote_trace d calls)"
  using assms vote_trace_consistent [of d calls]
  by (simp add: score_consistent_def [abs_def])

theorem score_equals_live_vote_sum_witness:
  "list_all (\<lambda>r. posts_vote_count r = vote_sum example_db (posts_id r)) (posts example_db)
   \<and> list_all (\<lambda>d'. list_all (\<lambda>r. posts_vote_count r = vote_sum d' (posts_id r)) (posts d'))
           (vote_trace example_db example_calls)
   \<and> map (\<lambda>d'. (score d' 7, vote_sum d' 7)) (vote_trace example_db example_calls) =
       [(Some 1, 1), (Some 0, 0), (Some (- 2), - 2), (Some (- 1), - 1), (Some (- 1), - 1),
        (Some (- 1), - 1)]"
proof -
  have h: "list_all (\<lambda>r. posts_vote_count r = vote_sum example_db (posts_id r)) (posts example_db)"
    by code_simp
  have t: "map (\<lambda>d'. (score d' 7, vote_sum d' 7)) (vote_trace example_db example_calls) =
       [(Some 1, 1), (Some 0, 0), (Some (- 2), - 2), (Some (- 1), - 1), (Some (- 1), - 1),
        (Some (- 1), - 1)]"
    by code_simp
  show ?thesis
    using h t score_equals_live_vote_sum_after_each_call [OF h, of example_calls] by simp
qed

section \<open>The transitions of the vote endpoint\<close>

text \<open>
  From here on the trigger is used through its effect on the score, not through its
  equations.
\<close>

declare update_post_vote_count.simps [simp del]

lemma find_update_posts:
  assumes "\<And>r. posts_id (st r) = posts_id r"
  shows "find (\<lambda>r. posts_id r = p) (update_posts now wh st ps) =
     map_option (\<lambda>r. if wh r then update_updated_at_column now (st r) else r)
       (find (\<lambda>r. posts_id r = p) ps)"
  using assms by (induction ps) (auto simp: update_posts_def)

lemma score_SomeD:
  "score d p = Some c \<Longrightarrow>
   \<exists>r. find (\<lambda>r. posts_id r = p) (posts d) = Some r \<and> posts_id r = p \<and> posts_vote_count r = c"
  by (auto simp: score_def find_post_def find_Some_iff)

lemma score_posts:
  "score d p = map_option posts_vote_count (find (\<lambda>r. posts_id r = p) (posts d))"
  by (simp add: score_def find_post_def)

lemma score_after_event:
  "map_option posts_vote_count (find (\<lambda>r. posts_id r = p) (update_post_vote_count now ev ps)) =
     map_option (\<lambda>c. c + (case ev of
         INSERT NEW \<Rightarrow> if p = votes_post_id NEW then votes_vote_type NEW else 0
       | DELETE OLD \<Rightarrow> if p = votes_post_id OLD then - votes_vote_type OLD else 0
       | UPDATE OLD NEW \<Rightarrow> if p = votes_post_id NEW then votes_vote_type NEW - votes_vote_type OLD else 0))
     (map_option posts_vote_count (find (\<lambda>r. posts_id r = p) ps))"
proof (cases "find (\<lambda>r. posts_id r = p) ps")
  case None
  then show ?thesis
    by (cases ev) (simp_all add: update_post_vote_count.simps find_update_posts)
next
  case (Some r)
  then have "posts_id r = p"
    by (auto simp: find_Some_iff)
  then show ?thesis
    using Some by (cases ev) (auto simp: update_post_vote_count.simps find_update_posts)
qed

lemma score_db_after_event:
  "score (d\<lparr>votes := vs, posts := update_post_vote_count now ev (posts d)\<rparr>) p =
     map_option (\<lambda>c. c + (case ev of
         INSERT NEW \<Rightarrow> if p = votes_post_id NEW then votes_vote_type NEW else 0
       | DELETE OLD \<Rightarrow> if p = votes_post_id OLD then - votes_vote_type OLD else 0
       | UPDATE OLD NEW \<Rightarrow> if p = votes_post_id NEW then votes_vote_type NEW - votes_vote_type OLD else 0))
     (score d p)"
  by (simp add: score_posts score_after_event)

lemma find_snoc:
  "find P (xs @ [x]) = (case find P xs of None \<Rightarrow> if P x then Some x else None | Some y \<Rightarrow> Some y)"
  by (induction xs) auto

lemma find_vote_None_iff:
  "find_vote d u p = None \<longleftrightarrow> (\<forall>r \<in> set (votes d). \<not> same_user_post u p r)"
  by (auto simp: find_vote_def find_None_iff)

lemma find_vote_SomeD:
  "find_vote d u p = Some e \<Longrightarrow> e \<in> set (votes d) \<and> votes_user_id e = u \<and> votes_post_id e = p"
  by (auto simp: find_vote_def find_Some_iff same_user_post_def)

lemma submitVote_new:
  assumes "score d p = Some c" and "find_vote d u p = None" and "v = 1 \<or> v = - 1"
  shows "submitVote now d (Some u) p v =
     (d\<lparr>votes := votes d @ [\<lparr>votes_user_id = u, votes_post_id = p, votes_vote_type = v\<rparr>],
        posts := update_post_vote_count now
          (INSERT \<lparr>votes_user_id = u, votes_post_id = p, votes_vote_type = v\<rparr>) (posts d)\<rparr>,
      Inr \<lparr>vote_count = c + v, user_vote = v\<rparr>)"
proof -
  obtain r where r: "find (\<lambda>r. posts_id r = p) (posts d) = Some r" "posts_id r = p" "posts_vote_count r = c"
    using score_SomeD [OF assms(1)] by blast
  show ?thesis
    using assms(2,3) r
    by (auto simp: submitVote_def insert_vote_def vote_type_check_def respond_def
        find_post_def find_update_posts update_post_vote_count.simps)
qed

lemma submitVote_retract:
  assumes "score d p = Some c" and "find_vote d u p = Some e"
    and "v = votes_vote_type e \<or> v = 0"
  shows "submitVote now d (Some u) p v =
     (d\<lparr>votes := remove1 e (votes d),
        posts := update_post_vote_count now (DELETE e) (posts d)\<rparr>,
      Inr \<lparr>vote_count = c - votes_vote_type e, user_vote = 0\<rparr>)"
proof -
  obtain r where r: "find (\<lambda>r. posts_id r = p) (posts d) = Some r" "posts_id r = p" "posts_vote_count r = c"
    using score_SomeD [OF assms(1)] by blast
  show ?thesis
    using assms(2,3) r find_vote_SomeD [OF assms(2)]
    by (auto simp: submitVote_def delete_vote_def respond_def
        find_post_def find_update_posts update_post_vote_count.simps)
qed

lemma submitVote_change:
  assumes "score d p = Some c" and "find_vote d u p = Some e"
    and "v \<noteq> votes_vote_type e" and "v = 1 \<or> v = - 1"
  shows "submitVote now d (Some u) p v =
     (d\<lparr>votes := replace1 e (e\<lparr>votes_vote_type := v\<rparr>) (votes d),
        posts := update_post_vote_count now (UPDATE e (e\<lparr>votes_vote_type := v\<rparr>)) (posts d)\<rparr>,
      Inr \<lparr>vote_count = c - votes_vote_type e + v, user_vote = v\<rparr>)"
proof -
  obtain r where r: "find (\<lambda>r. posts_id r = p) (posts d) = Some r" "posts_id r = p" "posts_vote_count r = c"
    using score_SomeD [OF assms(1)] by blast
  show ?thesis
    using assms(2,3,4) r find_vote_SomeD [OF assms(2)]
    by (auto simp: submitVote_def update_vote_def Let_def vote_type_check_def respond_def
        find_post_def find_update_posts update_post_vote_count.simps)
qed

lemma find_vote_after_insert:
  assumes "find_vote d u p = None"
  shows "find_vote (d\<lparr>votes := votes d @ [\<lparr>votes_user_id = u, votes_post_id = p, votes_vote_type = v\<rparr>],
                     posts := ps\<rparr>) u p =
         Some \<lparr>votes_user_id = u, votes_post_id = p, votes_vote_type = v\<rparr>"
  using assms by (simp add: find_vote_def find_snoc same_user_post_def)

lemma remove1_last_new:
  "x \<notin> set xs \<Longrightarrow> remove1 x (xs @ [x]) = xs"
  by (simp add: remove1_append)

lemma new_vote_not_stored:
  "find_vote d u p = None \<Longrightarrow> \<lparr>votes_user_id = u, votes_post_id = p, votes_vote_type = v\<rparr> \<notin> set (votes d)"
  by (auto simp: find_vote_None_iff same_user_post_def)

text \<open>
  C4. An authenticated actor without a vote on an existing post who submits \<open>+1\<close> twice:
  both calls succeed, the second one removes the row that the first one stored (the ledger
  is as before the first call, the actor has no vote) and the score is back at its value
  before the first call. In general, when the actor's stored vote has the value \<open>v \<noteq> 0\<close> and
  the requested value is \<open>v\<close>, the call deletes that row, the ledger is one row shorter and
  the score changes by \<open>- v\<close>.
\<close>

theorem same_vote_again_toggles_off:
  "(score d p = Some c \<and> find_vote d u p = None \<longrightarrow>
      snd (submitVote t1 d (Some u) p 1) = Inr \<lparr>vote_count = c + 1, user_vote = 1\<rparr>
      \<and> snd (submitVote t2 (fst (submitVote t1 d (Some u) p 1)) (Some u) p 1) =
          Inr \<lparr>vote_count = c, user_vote = 0\<rparr>
      \<and> votes (fst (submitVote t2 (fst (submitVote t1 d (Some u) p 1)) (Some u) p 1)) = votes d
      \<and> find_vote (fst (submitVote t2 (fst (submitVote t1 d (Some u) p 1)) (Some u) p 1)) u p = None
      \<and> score (fst (submitVote t2 (fst (submitVote t1 d (Some u) p 1)) (Some u) p 1)) p = Some c)
   \<and> (score d' p' = Some c' \<and> find_vote d' u' p' = Some e \<and> votes_vote_type e = v \<and> v \<noteq> 0 \<longrightarrow>
      snd (submitVote now d' (Some u') p' v) = Inr \<lparr>vote_count = c' - v, user_vote = 0\<rparr>
      \<and> votes (fst (submitVote now d' (Some u') p' v)) = remove1 e (votes d')
      \<and> length (votes (fst (submitVote now d' (Some u') p' v))) + 1 = length (votes d')
      \<and> score (fst (submitVote now d' (Some u') p' v)) p' = Some (c' - v))"
proof (intro conjI impI)
  assume a: "score d p = Some c \<and> find_vote d u p = None"
  let ?NEW = "\<lparr>votes_user_id = u, votes_post_id = p, votes_vote_type = 1\<rparr>"
  let ?d1 = "d\<lparr>votes := votes d @ [?NEW], posts := update_post_vote_count t1 (INSERT ?NEW) (posts d)\<rparr>"
  have s1: "submitVote t1 d (Some u) p 1 = (?d1, Inr \<lparr>vote_count = c + 1, user_vote = 1\<rparr>)"
    using a by (simp add: submitVote_new)
  have p1: "score ?d1 p = Some (c + 1)"
    using a by (simp add: score_posts score_after_event)
  have v1: "find_vote ?d1 u p = Some ?NEW"
    using a by (simp only: find_vote_after_insert)
  have s2: "submitVote t2 ?d1 (Some u) p 1 =
      (?d1\<lparr>votes := remove1 ?NEW (votes ?d1), posts := update_post_vote_count t2 (DELETE ?NEW) (posts ?d1)\<rparr>,
       Inr \<lparr>vote_count = c + 1 - votes_vote_type ?NEW, user_vote = 0\<rparr>)"
    by (rule submitVote_retract [OF p1 v1]) simp
  have n: "?NEW \<notin> set (votes d)"
    using a by (simp add: new_vote_not_stored)
  show "snd (submitVote t1 d (Some u) p 1) = Inr \<lparr>vote_count = c + 1, user_vote = 1\<rparr>"
    by (simp add: s1)
  show "snd (submitVote t2 (fst (submitVote t1 d (Some u) p 1)) (Some u) p 1) =
          Inr \<lparr>vote_count = c, user_vote = 0\<rparr>"
    unfolding s1 fst_conv s2 snd_conv by simp
  show v2: "votes (fst (submitVote t2 (fst (submitVote t1 d (Some u) p 1)) (Some u) p 1)) = votes d"
    unfolding s1 fst_conv s2 using n by (simp add: remove1_last_new)
  show "find_vote (fst (submitVote t2 (fst (submitVote t1 d (Some u) p 1)) (Some u) p 1)) u p = None"
    using a v2 by (simp add: find_vote_def)
  show "score (fst (submitVote t2 (fst (submitVote t1 d (Some u) p 1)) (Some u) p 1)) p = Some c"
    unfolding s1 fst_conv s2 using a by (auto simp: score_posts score_after_event)
next
  assume b: "score d' p' = Some c' \<and> find_vote d' u' p' = Some e \<and> votes_vote_type e = v \<and> v \<noteq> 0"
  have s: "submitVote now d' (Some u') p' v =
     (d'\<lparr>votes := remove1 e (votes d'), posts := update_post_vote_count now (DELETE e) (posts d')\<rparr>,
      Inr \<lparr>vote_count = c' - votes_vote_type e, user_vote = 0\<rparr>)"
    using b by (intro submitVote_retract) simp_all
  have e: "e \<in> set (votes d')" "votes_post_id e = p'"
    using b find_vote_SomeD [of d' u' p' e] by simp_all
  show "snd (submitVote now d' (Some u') p' v) = Inr \<lparr>vote_count = c' - v, user_vote = 0\<rparr>"
    using b by (simp add: s)
  show "votes (fst (submitVote now d' (Some u') p' v)) = remove1 e (votes d')"
    by (simp add: s)
  show "length (votes (fst (submitVote now d' (Some u') p' v))) + 1 = length (votes d')"
    using e(1) by (simp add: s length_remove1) (cases "votes d'", auto)
  show "score (fst (submitVote now d' (Some u') p' v)) p' = Some (c' - v)"
    unfolding s fst_conv using b e by (simp add: score_posts score_after_event)
qed


theorem same_vote_again_toggles_off_witness:
  "(score example_db 7 = Some 0 \<and> find_vote example_db 1 7 = None)
   \<and> (score example_voted_db 7 = Some 1 \<and> find_vote example_voted_db 1 7 = Some example_vote
        \<and> votes_vote_type example_vote = 1 \<and> (1::int) \<noteq> 0)
   \<and> votes (fst (submitVote 101 (fst (submitVote 100 example_db (Some 1) 7 1)) (Some 1) 7 1)) =
        votes example_db
   \<and> score (fst (submitVote 101 (fst (submitVote 100 example_db (Some 1) 7 1)) (Some 1) 7 1)) 7 = Some 0
   \<and> votes (fst (submitVote 101 example_voted_db (Some 1) 7 1)) =
        remove1 example_vote (votes example_voted_db)
   \<and> score (fst (submitVote 101 example_voted_db (Some 1) 7 1)) 7 = Some (1 - 1)"
proof -
  have h1: "score example_db 7 = Some 0 \<and> find_vote example_db 1 7 = None"
    by code_simp
  have h2: "score example_voted_db 7 = Some 1 \<and> find_vote example_voted_db 1 7 = Some example_vote
        \<and> votes_vote_type example_vote = 1 \<and> (1::int) \<noteq> 0"
    by code_simp
  show ?thesis
    using h1 h2 same_vote_again_toggles_off [where d = example_db and p = 7 and c = 0 and u = 1
        and ?t1.0 = 100 and ?t2.0 = 101 and d' = example_voted_db and p' = 7 and c' = 1 and u' = 1
        and e = example_vote and v = 1 and now = 101]
    by simp
qed

lemma length_replace1 [simp]: "length (replace1 x y xs) = length xs"
  by (induction xs) auto

lemma find_replace1:
  "find P xs = Some x \<Longrightarrow> P y \<Longrightarrow> find P (replace1 x y xs) = Some y"
  by (induction xs) (auto split: if_splits)

lemma find_remove1_distinct:
  assumes "distinct (map f xs)" and "find (\<lambda>r. f r = k) xs = Some e"
  shows "find (\<lambda>r. f r = k) (remove1 e xs) = None"
  using assms
proof (induction xs)
  case Nil
  then show ?case by simp
next
  case (Cons x xs)
  show ?case
  proof (cases "f x = k")
    case True
    then have "e = x" using Cons.prems(2) by simp
    moreover have "\<forall>r \<in> set xs. f r \<noteq> k"
      using Cons.prems(1) True by (auto simp: image_iff)
    ultimately show ?thesis by (simp add: find_None_iff)
  next
    case False
    then have "find (\<lambda>r. f r = k) xs = Some e" using Cons.prems(2) by simp
    moreover from this have "f e = k" by (auto simp: find_Some_iff)
    ultimately show ?thesis using Cons False by auto
  qed
qed

lemma same_user_post_key:
  "same_user_post u p = (\<lambda>r. (votes_user_id r, votes_post_id r) = (u, p))"
  by (auto simp: same_user_post_def)

lemma find_vote_after_retract:
  assumes "user_post_unique d" and "find_vote d u p = Some e"
  shows "find_vote (d\<lparr>votes := remove1 e (votes d), posts := ps\<rparr>) u p = None"
  using assms find_remove1_distinct [of "\<lambda>r. (votes_user_id r, votes_post_id r)" "votes d" "(u, p)" e]
  by (simp add: find_vote_def user_post_unique_def same_user_post_key)

lemma find_vote_after_change:
  assumes "find_vote d u p = Some e"
  shows "find_vote (d\<lparr>votes := replace1 e (e\<lparr>votes_vote_type := v\<rparr>) (votes d), posts := ps\<rparr>) u p =
     Some (e\<lparr>votes_vote_type := v\<rparr>)"
proof -
  have "same_user_post u p (e\<lparr>votes_vote_type := v\<rparr>)"
    using find_vote_SomeD [OF assms] by (simp add: same_user_post_def)
  then show ?thesis
    using assms by (simp add: find_vote_def find_replace1)
qed

text \<open>
  C5. When the actor's stored vote has the value \<open>v\<close> (\<open>+1\<close> or \<open>-1\<close>, as the \<^verbatim>\<open>CHECK\<close> of the
  table admits) and the requested value is \<open>- v\<close>, the call updates that row in place to
  \<open>- v\<close> (the ledger keeps its length and the row its position) and the score changes by
  exactly \<open>- 2 v\<close>. In particular \<open>+1\<close> and then \<open>-1\<close> by an actor without a vote: the
  score after the second call is the score after the first call minus 2.
\<close>

theorem opposite_vote_updates_in_place:
  "(score d p = Some c \<and> find_vote d u p = Some e \<and> vote_type_check e \<and> votes_vote_type e = v \<longrightarrow>
      snd (submitVote now d (Some u) p (- v)) = Inr \<lparr>vote_count = c - 2 * v, user_vote = - v\<rparr>
      \<and> votes (fst (submitVote now d (Some u) p (- v))) =
          replace1 e (e\<lparr>votes_vote_type := - v\<rparr>) (votes d)
      \<and> length (votes (fst (submitVote now d (Some u) p (- v)))) = length (votes d)
      \<and> find_vote (fst (submitVote now d (Some u) p (- v))) u p = Some (e\<lparr>votes_vote_type := - v\<rparr>)
      \<and> score (fst (submitVote now d (Some u) p (- v))) p = Some (c - 2 * v))
   \<and> (score d' p' = Some c' \<and> find_vote d' u' p' = None \<longrightarrow>
      score (fst (submitVote t1 d' (Some u') p' 1)) p' = Some (c' + 1)
      \<and> snd (submitVote t2 (fst (submitVote t1 d' (Some u') p' 1)) (Some u') p' (- 1)) =
          Inr \<lparr>vote_count = c' + 1 - 2, user_vote = - 1\<rparr>
      \<and> score (fst (submitVote t2 (fst (submitVote t1 d' (Some u') p' 1)) (Some u') p' (- 1))) p' =
          Some (c' + 1 - 2))"
proof (intro conjI impI)
  assume a: "score d p = Some c \<and> find_vote d u p = Some e \<and> vote_type_check e \<and> votes_vote_type e = v"
  let ?NEW = "e\<lparr>votes_vote_type := - v\<rparr>"
  have v: "v = 1 \<or> v = - 1"
    using a by (auto simp: vote_type_check_def)
  have s: "submitVote now d (Some u) p (- v) =
     (d\<lparr>votes := replace1 e ?NEW (votes d),
        posts := update_post_vote_count now (UPDATE e ?NEW) (posts d)\<rparr>,
      Inr \<lparr>vote_count = c - votes_vote_type e + - v, user_vote = - v\<rparr>)"
    using a v by (intro submitVote_change) auto
  have e: "votes_post_id e = p"
    using a find_vote_SomeD [of d u p e] by simp
  show "snd (submitVote now d (Some u) p (- v)) = Inr \<lparr>vote_count = c - 2 * v, user_vote = - v\<rparr>"
    using a by (simp add: s)
  show "votes (fst (submitVote now d (Some u) p (- v))) = replace1 e ?NEW (votes d)"
    by (simp add: s)
  show "length (votes (fst (submitVote now d (Some u) p (- v)))) = length (votes d)"
    by (simp add: s)
  show "find_vote (fst (submitVote now d (Some u) p (- v))) u p = Some ?NEW"
    unfolding s fst_conv using a by (simp only: find_vote_after_change)
  show "score (fst (submitVote now d (Some u) p (- v))) p = Some (c - 2 * v)"
    unfolding s fst_conv using a e by (simp add: score_db_after_event)
next
  assume b: "score d' p' = Some c' \<and> find_vote d' u' p' = None"
  let ?NEW = "\<lparr>votes_user_id = u', votes_post_id = p', votes_vote_type = 1\<rparr>"
  let ?d1 = "d'\<lparr>votes := votes d' @ [?NEW], posts := update_post_vote_count t1 (INSERT ?NEW) (posts d')\<rparr>"
  let ?CHG = "?NEW\<lparr>votes_vote_type := - 1\<rparr>"
  have s1: "submitVote t1 d' (Some u') p' 1 = (?d1, Inr \<lparr>vote_count = c' + 1, user_vote = 1\<rparr>)"
    using b by (simp add: submitVote_new)
  have p1: "score ?d1 p' = Some (c' + 1)"
    using b by (simp add: score_db_after_event)
  have v1: "find_vote ?d1 u' p' = Some ?NEW"
    using b by (simp only: find_vote_after_insert)
  have s2: "submitVote t2 ?d1 (Some u') p' (- 1) =
      (?d1\<lparr>votes := replace1 ?NEW ?CHG (votes ?d1),
            posts := update_post_vote_count t2 (UPDATE ?NEW ?CHG) (posts ?d1)\<rparr>,
       Inr \<lparr>vote_count = c' + 1 - votes_vote_type ?NEW + - 1, user_vote = - 1\<rparr>)"
    by (rule submitVote_change [OF p1 v1]) simp_all
  show "score (fst (submitVote t1 d' (Some u') p' 1)) p' = Some (c' + 1)"
    unfolding s1 fst_conv by (rule p1)
  show "snd (submitVote t2 (fst (submitVote t1 d' (Some u') p' 1)) (Some u') p' (- 1)) =
          Inr \<lparr>vote_count = c' + 1 - 2, user_vote = - 1\<rparr>"
    unfolding s1 fst_conv s2 snd_conv by simp
  show "score (fst (submitVote t2 (fst (submitVote t1 d' (Some u') p' 1)) (Some u') p' (- 1))) p' =
          Some (c' + 1 - 2)"
    unfolding s1 fst_conv s2 using b by (auto simp: score_posts score_after_event)
qed

theorem opposite_vote_updates_in_place_witness:
  "(score example_voted_db 7 = Some 1 \<and> find_vote example_voted_db 1 7 = Some example_vote
        \<and> vote_type_check example_vote \<and> votes_vote_type example_vote = 1)
   \<and> (score example_db 7 = Some 0 \<and> find_vote example_db 1 7 = None)
   \<and> votes (fst (submitVote 101 example_voted_db (Some 1) 7 (- 1))) =
        replace1 example_vote (example_vote\<lparr>votes_vote_type := - 1\<rparr>) (votes example_voted_db)
   \<and> score (fst (submitVote 101 example_voted_db (Some 1) 7 (- 1))) 7 = Some (1 - 2 * 1)
   \<and> score (fst (submitVote 100 example_db (Some 1) 7 1)) 7 = Some (0 + 1)
   \<and> score (fst (submitVote 101 (fst (submitVote 100 example_db (Some 1) 7 1)) (Some 1) 7 (- 1))) 7 =
        Some (0 + 1 - 2)"
proof -
  have h1: "score example_voted_db 7 = Some 1 \<and> find_vote example_voted_db 1 7 = Some example_vote
        \<and> vote_type_check example_vote \<and> votes_vote_type example_vote = 1"
    by code_simp
  have h2: "score example_db 7 = Some 0 \<and> find_vote example_db 1 7 = None"
    by code_simp
  show ?thesis
    using h1 h2 opposite_vote_updates_in_place [where d = example_voted_db and p = 7 and c = 1
        and u = 1 and e = example_vote and v = 1 and now = 101 and d' = example_db and p' = 7
        and c' = 0 and u' = 1 and ?t1.0 = 100 and ?t2.0 = 101]
    by simp
qed

section \<open>Rejected calls and replayed calls\<close>

lemma submitVote_unauthorized:
  "submitVote now d None p v = (d, Inl UNAUTHORIZED)"
  by (simp add: submitVote_def)

lemma submitVote_not_found:
  "score d p = None \<Longrightarrow> submitVote now d (Some u) p v = (d, Inl POST_NOT_FOUND)"
  by (simp add: submitVote_def score_def)

lemma submitVote_invalid_new:
  assumes "score d p = Some c" and "find_vote d u p = None" and "v \<noteq> 1" and "v \<noteq> - 1"
  shows "submitVote now d (Some u) p v = (d, Inl (database_error votes_vote_type_check))"
  using assms by (auto simp: submitVote_def score_def insert_vote_def vote_type_check_def)

lemma submitVote_invalid_change:
  assumes "score d p = Some c" and "find_vote d u p = Some e"
    and "v \<noteq> votes_vote_type e" and "v \<noteq> 0" and "v \<noteq> 1" and "v \<noteq> - 1"
  shows "submitVote now d (Some u) p v = (d, Inl (database_error votes_vote_type_check))"
  using assms find_vote_SomeD [OF assms(2)]
  by (auto simp: submitVote_def score_def update_vote_def Let_def vote_type_check_def)

lemma stored_vote_checked:
  "vote_types_checked d \<Longrightarrow> find_vote d u p = Some e \<Longrightarrow> vote_type_check e"
  using find_vote_SomeD [of d u p e] by (auto simp: vote_types_checked_def list_all_iff)

lemma submitVote_cases [case_names rejected new retract change]:
  obtains
    (rejected) err where "submitVote now d actor p v = (d, Inl err)"
  | (new) u c where "actor = Some u" "score d p = Some c" "find_vote d u p = None" "v = 1 \<or> v = - 1"
  | (retract) u c e where "actor = Some u" "score d p = Some c" "find_vote d u p = Some e"
      "v = votes_vote_type e \<or> v = 0"
  | (change) u c e where "actor = Some u" "score d p = Some c" "find_vote d u p = Some e"
      "v \<noteq> votes_vote_type e" "v \<noteq> 0" "v = 1 \<or> v = - 1"
proof (cases actor)
  case None
  then show ?thesis using rejected by (simp add: submitVote_unauthorized)
next
  case (Some u)
  show ?thesis
  proof (cases "score d p")
    case None
    then show ?thesis using Some rejected by (simp add: submitVote_not_found)
  next
    case sc: (Some c)
    show ?thesis
    proof (cases "find_vote d u p")
      case None
      show ?thesis
      proof (cases "v = 1 \<or> v = - 1")
        case True
        then show ?thesis using Some sc None new by blast
      next
        case False
        then show ?thesis
          using Some rejected submitVote_invalid_new [OF sc None, of v now] by simp
      qed
    next
      case vote: (Some e)
      show ?thesis
      proof (cases "v = votes_vote_type e \<or> v = 0")
        case True
        then show ?thesis using Some sc vote retract by blast
      next
        case False
        show ?thesis
        proof (cases "v = 1 \<or> v = - 1")
          case True
          then show ?thesis using Some sc vote False change by blast
        next
          case inv: False
          then show ?thesis
            using Some False rejected submitVote_invalid_change [OF sc vote, of v now] by simp
        qed
      qed
    qed
  qed
qed





lemma length_remove1_less: "x \<in> set xs \<Longrightarrow> length (remove1 x xs) < length xs"
  by (induction xs) auto

lemma retract_shortens:
  assumes "score d p = Some c" and "find_vote d u p = Some e" and "v = votes_vote_type e \<or> v = 0"
  shows "length (votes (fst (submitVote now d (Some u) p v))) < length (votes d)"
proof -
  have "e \<in> set (votes d)"
    using find_vote_SomeD [OF assms(2)] by simp
  then have "length (remove1 e (votes d)) < length (votes d)"
    by (rule length_remove1_less)
  then show ?thesis
    by (simp add: submitVote_retract [OF assms])
qed

lemma new_lengthens:
  assumes "score d p = Some c" and "find_vote d u p = None" and "v = 1 \<or> v = - 1"
  shows "length (votes (fst (submitVote now d (Some u) p v))) = Suc (length (votes d))"
  by (simp add: submitVote_new [OF assms])

lemma rejected_at_any_time:
  assumes "submitVote t1 d actor p v = (d, Inl err)"
  shows "fst (submitVote t2 d actor p v) = d"
proof (cases rule: submitVote_cases [where now = t2 and d = d and actor = actor and p = p and v = v])
  case (rejected err)
  then show ?thesis by simp
next
  case (new u c)
  then show ?thesis
    using assms submitVote_new [of d p c u v t1] by simp
next
  case (retract u c e)
  then show ?thesis
    using assms submitVote_retract [of d p c u e v t1] by simp
next
  case (change u c e)
  then show ?thesis
    using assms submitVote_change [of d p c u e v t1] by simp
qed

text \<open>
  C2. Replaying an identical request is not idempotent in general: the second \<open>+1\<close> finds
  the vote that the first one stored and toggles it off. What holds, in a state that
  satisfies the unique and the \<^verbatim>\<open>CHECK\<close> constraint of \<^verbatim>\<open>votes\<close>: submitting the identical
  \<open>(actor, post, value)\<close> twice leaves the ledger and the scores as they are after the first
  call if and only if the value is 0 or the first call is rejected.
\<close>

theorem replay_idempotent_iff_zero_or_rejected:
  "user_post_unique d \<and> vote_types_checked d \<longrightarrow>
     (ledger_and_score (fst (submitVote t2 (fst (submitVote t1 d actor p v)) actor p v)) =
      ledger_and_score (fst (submitVote t1 d actor p v)))
     = (v = 0 \<or> isl (snd (submitVote t1 d actor p v)))"
proof
  assume inv: "user_post_unique d \<and> vote_types_checked d"
  let ?once = "submitVote t1 d actor p v"
  let ?twice = "submitVote t2 (fst ?once) actor p v"
  have differ: "ledger_and_score (fst ?twice) \<noteq> ledger_and_score (fst ?once)"
    if "length (votes (fst ?twice)) \<noteq> length (votes (fst ?once))"
    using that by (auto simp: ledger_and_score_def)
  show "(ledger_and_score (fst ?twice) = ledger_and_score (fst ?once)) = (v = 0 \<or> isl (snd ?once))"
  proof (cases rule: submitVote_cases [where now = t1 and d = d and actor = actor and p = p and v = v])
    case (rejected err)
    then show ?thesis
      using rejected_at_any_time [OF rejected, of t2] by simp
  next
    case (new u c)
    let ?NEW = "\<lparr>votes_user_id = u, votes_post_id = p, votes_vote_type = v\<rparr>"
    let ?d1 = "d\<lparr>votes := votes d @ [?NEW], posts := update_post_vote_count t1 (INSERT ?NEW) (posts d)\<rparr>"
    have s1: "submitVote t1 d (Some u) p v = (?d1, Inr \<lparr>vote_count = c + v, user_vote = v\<rparr>)"
      using new by (simp add: submitVote_new)
    have p1: "score ?d1 p = Some (c + v)"
      using new by (simp add: score_db_after_event)
    have v1: "find_vote ?d1 u p = Some ?NEW"
      using new by (simp only: find_vote_after_insert)
    have "length (votes (fst (submitVote t2 ?d1 (Some u) p v))) < length (votes ?d1)"
      by (rule retract_shortens [OF p1 v1]) simp
    then have "ledger_and_score (fst ?twice) \<noteq> ledger_and_score (fst ?once)"
      using new(1) by (intro differ) (simp add: s1)
    moreover have "v \<noteq> 0" "\<not> isl (snd ?once)"
      using new(1,4) by (auto simp: s1)
    ultimately show ?thesis by simp
  next
    case (retract u c e)
    let ?d1 = "d\<lparr>votes := remove1 e (votes d), posts := update_post_vote_count t1 (DELETE e) (posts d)\<rparr>"
    have s1: "submitVote t1 d (Some u) p v = (?d1, Inr \<lparr>vote_count = c - votes_vote_type e, user_vote = 0\<rparr>)"
      using retract by (simp add: submitVote_retract)
    have e: "votes_post_id e = p"
      using find_vote_SomeD [OF retract(3)] by simp
    have p1: "score ?d1 p = Some (c - votes_vote_type e)"
      using retract e by (simp add: score_db_after_event)
    have v1: "find_vote ?d1 u p = None"
      using inv retract(3) by (simp only: find_vote_after_retract)
    show ?thesis
    proof (cases "v = 0")
      case True
      have "submitVote t2 ?d1 (Some u) p v = (?d1, Inl (database_error votes_vote_type_check))"
        using True by (intro submitVote_invalid_new [OF p1 v1]) simp_all
      then show ?thesis
        using True retract(1) s1 by simp
    next
      case False
      have "vote_type_check e"
        using inv retract(3) by (blast intro: stored_vote_checked)
      then have "v = 1 \<or> v = - 1"
        using False retract(4) by (auto simp: vote_type_check_def)
      then have "length (votes (fst (submitVote t2 ?d1 (Some u) p v))) = Suc (length (votes ?d1))"
        by (rule new_lengthens [OF p1 v1])
      then have "ledger_and_score (fst ?twice) \<noteq> ledger_and_score (fst ?once)"
        using retract(1) by (intro differ) (simp add: s1)
      moreover have "\<not> isl (snd ?once)"
        using retract(1) by (simp add: s1)
      ultimately show ?thesis using False by simp
    qed
  next
    case (change u c e)
    let ?NEW = "e\<lparr>votes_vote_type := v\<rparr>"
    let ?d1 = "d\<lparr>votes := replace1 e ?NEW (votes d),
                  posts := update_post_vote_count t1 (UPDATE e ?NEW) (posts d)\<rparr>"
    have s1: "submitVote t1 d (Some u) p v = (?d1, Inr \<lparr>vote_count = c - votes_vote_type e + v, user_vote = v\<rparr>)"
      using change by (simp add: submitVote_change)
    have e: "votes_post_id e = p"
      using find_vote_SomeD [OF change(3)] by simp
    have p1: "score ?d1 p = Some (c + (v - votes_vote_type e))"
      using change e by (simp add: score_db_after_event)
    have v1: "find_vote ?d1 u p = Some ?NEW"
      using change(3) by (simp only: find_vote_after_change)
    have "length (votes (fst (submitVote t2 ?d1 (Some u) p v))) < length (votes ?d1)"
      by (rule retract_shortens [OF p1 v1]) simp
    then have "ledger_and_score (fst ?twice) \<noteq> ledger_and_score (fst ?once)"
      using change(1) by (intro differ) (simp add: s1)
    moreover have "\<not> isl (snd ?once)"
      using change(1) by (simp add: s1)
    ultimately show ?thesis using change(5) by simp
  qed
qed

theorem replay_idempotent_witness:
  "(user_post_unique example_voted_db \<and> vote_types_checked example_voted_db)
   \<and> ledger_and_score
        (fst (submitVote 102 (fst (submitVote 101 example_voted_db (Some 1) 7 0)) (Some 1) 7 0)) =
       ledger_and_score (fst (submitVote 101 example_voted_db (Some 1) 7 0))"
proof -
  have h: "user_post_unique example_voted_db \<and> vote_types_checked example_voted_db"
    by code_simp
  show ?thesis
    using h replay_idempotent_iff_zero_or_rejected [where d = example_voted_db and actor = "Some 1"
        and p = 7 and v = 0 and ?t1.0 = 101 and ?t2.0 = 102]
    by simp
qed

text \<open>
  The claim as stated fails for user 1 voting \<open>+1\<close> twice on post 7, which has no votes:
  after the first call the ledger holds the vote and the score is 1, after the second
  the ledger is empty and the score is 0.
\<close>

theorem replay_not_idempotent_counterexample:
  "ledger_and_score (fst (submitVote 101 (fst (submitVote 100 example_db (Some 1) 7 1)) (Some 1) 7 1)) \<noteq>
   ledger_and_score (fst (submitVote 100 example_db (Some 1) 7 1))"
  by code_simp

section \<open>The constraints of \<^verbatim>\<open>votes\<close> in reachable states\<close>

lemma distinct_map_remove1:
  "distinct (map f xs) \<Longrightarrow> distinct (map f (remove1 x xs))"
proof (induction xs)
  case Nil
  then show ?case by simp
next
  case (Cons a xs)
  have "f a \<notin> f ` set (remove1 x xs)"
    using Cons.prems set_remove1_subset [of x xs] by auto
  then show ?case
    using Cons by auto
qed

lemma map_replace1:
  "f y = f x \<Longrightarrow> map f (replace1 x y xs) = map f xs"
  by (induction xs) auto

lemma list_all_replace1:
  "list_all P xs \<Longrightarrow> P y \<Longrightarrow> list_all P (replace1 x y xs)"
  by (induction xs) auto

lemma list_all_remove1:
  "list_all P xs \<Longrightarrow> list_all P (remove1 x xs)"
  by (induction xs) auto

lemma submitVote_unique:
  assumes "user_post_unique d"
  shows "user_post_unique (fst (submitVote now d actor p v))"
proof (cases rule: submitVote_cases [where now = now and d = d and actor = actor and p = p and v = v])
  case (rejected err)
  then show ?thesis using assms by simp
next
  case (new u c)
  have "(u, p) \<notin> (\<lambda>r. (votes_user_id r, votes_post_id r)) ` set (votes d)"
    using new(3) by (auto simp: find_vote_None_iff same_user_post_def)
  then show ?thesis
    using assms new by (simp add: submitVote_new user_post_unique_def)
next
  case (retract u c e)
  then show ?thesis
    using assms by (simp add: submitVote_retract user_post_unique_def distinct_map_remove1)
next
  case (change u c e)
  then show ?thesis
    using assms by (simp add: submitVote_change user_post_unique_def map_replace1)
qed

lemma submitVote_checked:
  assumes "vote_types_checked d"
  shows "vote_types_checked (fst (submitVote now d actor p v))"
proof (cases rule: submitVote_cases [where now = now and d = d and actor = actor and p = p and v = v])
  case (rejected err)
  then show ?thesis using assms by simp
next
  case (new u c)
  then show ?thesis
    using assms by (auto simp: submitVote_new vote_types_checked_def vote_type_check_def)
next
  case (retract u c e)
  then show ?thesis
    using assms by (simp add: submitVote_retract vote_types_checked_def list_all_remove1)
next
  case (change u c e)
  then show ?thesis
    using assms
    by (auto simp: submitVote_change vote_types_checked_def vote_type_check_def intro!: list_all_replace1)
qed

lemma votes_keep [simp]:
  "votes (keep d (insert_post now new_id u t title content d)) = votes d"
  "votes (keep d (insert_topic now new_id nm descr d)) = votes d"
  "votes (keep d (delete_topic now t' d)) = votes d"
  "votes (keep d (insert_report u p reason details d)) = votes d"
  by (simp_all add: keep_def insert_post_def insert_topic_def delete_topic_def insert_report_def)

lemma votes_delete_post [simp]:
  "votes (delete_post now p d) = filter (\<lambda>r. votes_post_id r \<noteq> p) (votes d)"
  by (simp add: delete_post_def Let_def)

lemma step_unique: "user_post_unique d \<Longrightarrow> user_post_unique (step d op)"
  by (cases op) (simp_all add: submitVote_unique, simp_all add: user_post_unique_def distinct_map_filter)

lemma step_checked: "vote_types_checked d \<Longrightarrow> vote_types_checked (step d op)"
  by (cases op) (simp_all add: submitVote_checked, simp_all add: vote_types_checked_def list_all_iff)

lemma foldl_step_votes_ok:
  "user_post_unique d \<and> vote_types_checked d \<Longrightarrow>
   user_post_unique (foldl step d ops) \<and> vote_types_checked (foldl step d ops)"
  by (induction ops arbitrary: d) (simp_all add: step_unique step_checked)

lemma run_votes_ok: "user_post_unique (run ops) \<and> vote_types_checked (run ops)"
  unfolding run_def
  by (rule foldl_step_votes_ok) (simp add: user_post_unique_def vote_types_checked_def empty_db_def)

lemma distinct_map_filter_le_1:
  "distinct (map f xs) \<Longrightarrow> length (filter (\<lambda>r. f r = k) xs) \<le> 1"
proof (induction xs)
  case Nil
  then show ?case by simp
next
  case (Cons x xs)
  show ?case
  proof (cases "f x = k")
    case True
    then have "filter (\<lambda>r. f r = k) xs = []"
      using Cons.prems by (auto simp: filter_empty_conv image_iff)
    then show ?thesis using True by simp
  next
    case False
    then show ?thesis using Cons by simp
  qed
qed

text \<open>
  C7. In every state that a sequence of operations reaches from the empty database, a user
  has at most one vote row on a post, every stored vote value is \<open>+1\<close> or \<open>-1\<close>, and
  no stored value is 0: a retracted vote is a deleted row.
\<close>

theorem one_vote_per_user_and_post_never_zero:
  "length (filter (same_user_post u p) (votes (run ops))) \<le> 1
   \<and> list_all (\<lambda>r. votes_vote_type r = 1 \<or> votes_vote_type r = - 1) (votes (run ops))
   \<and> list_all (\<lambda>r. votes_vote_type r \<noteq> 0) (votes (run ops))"
proof -
  have u: "user_post_unique (run ops)" and c: "vote_types_checked (run ops)"
    using run_votes_ok [of ops] by simp_all
  have "length (filter (\<lambda>r. (votes_user_id r, votes_post_id r) = (u, p)) (votes (run ops))) \<le> 1"
    using u unfolding user_post_unique_def by (rule distinct_map_filter_le_1)
  moreover have "list_all (\<lambda>r. votes_vote_type r = 1 \<or> votes_vote_type r = - 1) (votes (run ops))"
    using c by (auto simp: vote_types_checked_def vote_type_check_def list_all_iff)
  moreover from this have "list_all (\<lambda>r. votes_vote_type r \<noteq> 0) (votes (run ops))"
    by (auto simp: list_all_iff)
  ultimately show ?thesis
    by (simp add: same_user_post_key)
qed

theorem one_vote_per_user_and_post_witness:
  "length (filter (same_user_post 1 7) (votes (run example_ops))) \<le> 1
   \<and> list_all (\<lambda>r. votes_vote_type r = 1 \<or> votes_vote_type r = - 1) (votes (run example_ops))
   \<and> list_all (\<lambda>r. votes_vote_type r \<noteq> 0) (votes (run example_ops))
   \<and> votes (run example_ops) = [example_vote]
   \<and> run (take 2 example_ops) = example_db
   \<and> run (take 3 example_ops) = example_voted_db"
proof -
  have e: "votes (run example_ops) = [example_vote] \<and> run (take 2 example_ops) = example_db
      \<and> run (take 3 example_ops) = example_voted_db"
    by code_simp
  show ?thesis
    using e one_vote_per_user_and_post_never_zero [of 1 7 example_ops] by simp
qed

section \<open>Cascades\<close>

lemma update_posts_no_match:
  "\<forall>r \<in> set ps. \<not> wh r \<Longrightarrow> update_posts now wh st ps = ps"
  by (induction ps) (simp_all add: update_posts_def)

lemma cascade_triggers_idle:
  assumes "\<forall>r \<in> set ps. posts_id r \<noteq> p" and "\<forall>OLD \<in> set cascaded. votes_post_id OLD = p"
  shows "fold (\<lambda>OLD. update_post_vote_count now (DELETE OLD)) cascaded ps = ps"
  using assms
  by (induction cascaded) (simp_all add: update_post_vote_count.simps update_posts_no_match)

lemma posts_delete_post:
  "posts (delete_post now p d) = filter (\<lambda>r. posts_id r \<noteq> p) (posts d)"
proof -
  have "fold (\<lambda>OLD. update_post_vote_count now (DELETE OLD))
      (filter (\<lambda>r. votes_post_id r = p) (votes d)) (filter (\<lambda>r. posts_id r \<noteq> p) (posts d)) =
      filter (\<lambda>r. posts_id r \<noteq> p) (posts d)"
    by (rule cascade_triggers_idle [where p = p]) simp_all
  then show ?thesis
    by (simp add: delete_post_def Let_def)
qed

lemma reports_delete_post:
  "reports (delete_post now p d) = filter (\<lambda>r. reports_post_id r \<noteq> p) (reports d)"
  by (simp add: delete_post_def Let_def)

lemma topics_delete_post: "topics (delete_post now p d) = topics d"
  by (simp add: delete_post_def Let_def)

lemma delete_post_cascades:
  "find_post (delete_post now p d) p = None
   \<and> filter (\<lambda>r. votes_post_id r = p) (votes (delete_post now p d)) = []
   \<and> filter (\<lambda>r. reports_post_id r = p) (reports (delete_post now p d)) = []
   \<and> filter (\<lambda>r. votes_post_id r \<noteq> p) (votes (delete_post now p d)) =
       filter (\<lambda>r. votes_post_id r \<noteq> p) (votes d)
   \<and> filter (\<lambda>r. reports_post_id r \<noteq> p) (reports (delete_post now p d)) =
       filter (\<lambda>r. reports_post_id r \<noteq> p) (reports d)
   \<and> posts (delete_post now p d) = filter (\<lambda>r. posts_id r \<noteq> p) (posts d)
   \<and> topics (delete_post now p d) = topics d"
  by (auto simp: find_post_def posts_delete_post reports_delete_post topics_delete_post
      find_None_iff filter_empty_conv)

lemma delete_topic_referenced:
  assumes "find (\<lambda>r. topics_id r = t) (topics d) \<noteq> None"
    and "find (\<lambda>r. posts_topic_id r = Some t) (posts d) \<noteq> None"
  shows "delete_topic now t d = Inl posts_topic_id_not_null"
  using assms by (simp add: delete_topic_def)

lemma delete_topic_never_detaches:
  assumes "delete_topic now t d = Inr d'"
  shows "posts d' = posts d"
  using assms
  by (auto simp: delete_topic_def on_delete_set_null_def find_None_iff update_posts_no_match
      split: if_splits)

text \<open>
  C8. Deleting a post deletes the votes and the reports that reference it
  (\<open>delete_post_cascades\<close>). Deleting a topic does not detach its posts: the column
  \<^verbatim>\<open>posts.topic_id\<close> is declared \<^verbatim>\<open>NOT NULL\<close> and \<^verbatim>\<open>ON DELETE SET NULL\<close> at once, so the
  referential action fails the constraint, the statement is rejected, and the topic and
  its posts stay as they are (\<open>delete_topic_referenced\<close>, \<open>delete_topic_never_detaches\<close>).
  Here: topic 1 with its post 7.
\<close>

theorem delete_topic_with_posts_is_rejected:
  "delete_topic 200 1 example_db = Inl posts_topic_id_not_null
   \<and> step example_db (DeleteTopic 200 1) = example_db
   \<and> map posts_topic_id (posts example_db) = [Some 1]"
  by code_simp


section \<open>The score in reachable states\<close>

text \<open>
  Every state reached from the empty database has every post's \<^verbatim>\<open>vote_count\<close> equal to
  the sum of its live votes, and every vote referencing a stored post: a post is created
  with \<^verbatim>\<open>vote_count\<close> 0 under an identifier that no vote references, and deleting a post
  deletes its votes.
\<close>

lemma score_None_iff: "score d p = None \<longleftrightarrow> find_post d p = None"
  by (simp add: score_def)

lemma find_post_after_event_None_iff:
  "find_post (d\<lparr>votes := vs, posts := update_post_vote_count now ev (posts d)\<rparr>) q = None
     \<longleftrightarrow> find_post d q = None"
  using score_db_after_event [where d = d and vs = vs and now = now and ev = ev and p = q] by (simp add: score_None_iff [symmetric])

lemma set_replace1_subset: "set (replace1 x y xs) \<subseteq> insert y (set xs)"
  by (induction xs) auto

lemma submitVote_reference:
  assumes "votes_reference_posts d"
  shows "votes_reference_posts (fst (submitVote now d actor p v))"
proof (cases rule: submitVote_cases [where now = now and d = d and actor = actor and p = p and v = v])
  case (rejected err)
  then show ?thesis using assms by simp
next
  case (new u c)
  then have "find_post d p \<noteq> None"
    by (auto simp: score_None_iff [symmetric])
  then show ?thesis
    using assms new
    by (simp add: submitVote_new votes_reference_posts_def list_all_iff
        find_post_after_event_None_iff)
next
  case (retract u c e)
  then show ?thesis
    using assms
    by (auto simp: submitVote_retract votes_reference_posts_def list_all_iff
        find_post_after_event_None_iff dest: notin_set_remove1)
next
  case (change u c e)
  have e: "e \<in> set (votes d)"
    using find_vote_SomeD [OF change(3)] by simp
  show ?thesis
    using assms change e set_replace1_subset [of e "e\<lparr>votes_vote_type := v\<rparr>" "votes d"]
    by (auto simp: submitVote_change votes_reference_posts_def list_all_iff
        find_post_after_event_None_iff)
qed

lemma find_filter_other:
  "q \<noteq> p \<Longrightarrow> find (\<lambda>r. f r = q) (filter (\<lambda>r. f r \<noteq> p) xs) = find (\<lambda>r. f r = q) xs"
  by (induction xs) auto

lemma filter_other_conj:
  "q \<noteq> p \<Longrightarrow> filter (\<lambda>r. f r \<noteq> p \<and> f r = q) xs = filter (\<lambda>r. f r = q) xs"
  by (induction xs) auto

lemma delete_post_reference:
  assumes "votes_reference_posts d"
  shows "votes_reference_posts (delete_post now p d)"
  using assms
  by (auto simp: votes_reference_posts_def list_all_iff find_post_def posts_delete_post
      find_filter_other)

lemma delete_post_consistent:
  assumes "score_consistent d"
  shows "score_consistent (delete_post now p d)"
  using assms
  by (auto simp: score_consistent_def list_all_iff posts_delete_post vote_sum_def live_votes_def
      filter_other_conj)

lemma insert_post_reference:
  assumes "votes_reference_posts d"
  shows "votes_reference_posts (keep d (insert_post now new_id u t title content d))"
  using assms
  by (auto simp: keep_def insert_post_def votes_reference_posts_def list_all_iff find_post_def
      find_snoc split: option.splits)

lemma no_votes_on_missing_post:
  assumes "votes_reference_posts d" and "find_post d q = None"
  shows "vote_sum d q = 0"
proof -
  have "filter (\<lambda>r. votes_post_id r = q) (votes d) = []"
    using assms by (auto simp: votes_reference_posts_def list_all_iff filter_empty_conv)
  then show ?thesis
    by (simp add: vote_sum_def live_votes_def)
qed

lemma insert_post_consistent:
  assumes "score_consistent d" and "votes_reference_posts d"
  shows "score_consistent (keep d (insert_post now new_id u t title content d))"
  using assms no_votes_on_missing_post [OF assms(2), of new_id]
  by (auto simp: keep_def insert_post_def score_consistent_def list_all_iff vote_sum_def
      live_votes_def)

lemma delete_topic_reference:
  assumes "votes_reference_posts d"
  shows "votes_reference_posts (keep d (delete_topic now t d))"
proof (cases "delete_topic now t d")
  case (Inl e)
  then show ?thesis using assms by (simp add: keep_def)
next
  case (Inr d')
  then have "posts d' = posts d" "votes d' = votes d"
    using delete_topic_never_detaches [OF Inr]
    by (auto simp: delete_topic_def split: if_splits)
  then show ?thesis
    using assms Inr by (simp add: keep_def votes_reference_posts_def find_post_def)
qed

lemma delete_topic_consistent:
  assumes "score_consistent d"
  shows "score_consistent (keep d (delete_topic now t d))"
proof (cases "delete_topic now t d")
  case (Inl e)
  then show ?thesis using assms by (simp add: keep_def)
next
  case (Inr d')
  then have "posts d' = posts d" "votes d' = votes d"
    using delete_topic_never_detaches [OF Inr]
    by (auto simp: delete_topic_def split: if_splits)
  then show ?thesis
    using assms Inr by (simp add: keep_def score_consistent_def vote_sum_def live_votes_def)
qed

lemma posts_keep [simp]:
  "posts (keep d (insert_topic now new_id nm descr d)) = posts d"
  "posts (keep d (insert_report u p reason details d)) = posts d"
  by (simp_all add: keep_def insert_topic_def insert_report_def)

lemma step_reference: "votes_reference_posts d \<Longrightarrow> votes_reference_posts (step d op)"
  by (cases op)
     (simp_all add: submitVote_reference insert_post_reference delete_post_reference
        delete_topic_reference, simp_all add: votes_reference_posts_def find_post_def)

lemma step_consistent:
  "score_consistent d \<Longrightarrow> votes_reference_posts d \<Longrightarrow> score_consistent (step d op)"
  by (cases op)
     (simp_all add: submitVote_consistent insert_post_consistent delete_post_consistent
        delete_topic_consistent, simp_all add: score_consistent_def vote_sum_def live_votes_def)

lemma foldl_step_consistent:
  "score_consistent d \<and> votes_reference_posts d \<Longrightarrow>
   score_consistent (foldl step d ops) \<and> votes_reference_posts (foldl step d ops)"
  by (induction ops arbitrary: d) (simp_all add: step_consistent step_reference)

lemma run_score_consistent: "score_consistent (run ops) \<and> votes_reference_posts (run ops)"
  unfolding run_def
  by (rule foldl_step_consistent)
     (simp add: score_consistent_def votes_reference_posts_def empty_db_def)

section \<open>The order of the feed\<close>








section \<open>Clicks on the post card\<close>

lemma PostCard_buttons:
  assumes "PostCard ToBoolean s = Inr out"
  shows "map on_click (buttons out) =
     [Some handleUpvote, Some handleDownvote, Some handleComment, Some handleShare]"
  using assms
  by (auto simp: PostCard_def handleMultipleMedia_def split: option.splits)

lemma click_button:
  assumes "on_click b \<in> {Some handleUpvote, Some handleDownvote, Some handleComment, Some handleShare}"
  shows "click b s = s"
proof (cases b)
  case (Element tag cls h cs)
  then show ?thesis
    using assms
    by (cases h) (auto simp: handleUpvote_def handleDownvote_def handleComment_def handleShare_def)
qed (use assms in simp_all)

text \<open>
  C10. In the rendered \<^verbatim>\<open>PostCard\<close> the four buttons are, in this order, upvote, downvote,
  comment and share with their handlers; \<open>handleUpvote\<close> and \<open>handleDownvote\<close> return the
  state they are given, and a click on any button of the card leaves the state of the
  page as it was: no vote is sent, and the card renders to the same output, with the same
  counts, as before the click, for every value of the props.
\<close>

theorem post_card_clicks_change_nothing:
  "PostCard ToBoolean s = Inr out \<longrightarrow>
     map on_click (buttons out) =
       [Some handleUpvote, Some handleDownvote, Some handleComment, Some handleShare]
     \<and> handleUpvote s = s \<and> handleDownvote s = s
     \<and> list_all (\<lambda>b. click b s = s \<and> votes_sent (click b s) = votes_sent s
                    \<and> PostCard ToBoolean (click b s) = Inr out) (buttons out)"
proof
  assume r: "PostCard ToBoolean s = Inr out"
  have m: "map on_click (buttons out) =
       [Some handleUpvote, Some handleDownvote, Some handleComment, Some handleShare]"
    using r by (rule PostCard_buttons)
  have "click b s = s" if "b \<in> set (buttons out)" for b
  proof -
    have "on_click b \<in> set (map on_click (buttons out))"
      using that by simp
    then show ?thesis
      unfolding m by (intro click_button) simp
  qed
  then have "list_all (\<lambda>b. click b s = s \<and> votes_sent (click b s) = votes_sent s
                    \<and> PostCard ToBoolean (click b s) = Inr out) (buttons out)"
    using r by (simp add: list_all_iff)
  then show "map on_click (buttons out) =
       [Some handleUpvote, Some handleDownvote, Some handleComment, Some handleShare]
     \<and> handleUpvote s = s \<and> handleDownvote s = s
     \<and> list_all (\<lambda>b. click b s = s \<and> votes_sent (click b s) = votes_sent s
                    \<and> PostCard ToBoolean (click b s) = Inr out) (buttons out)"
    using m by (simp add: handleUpvote_def handleDownvote_def)
qed

theorem post_card_clicks_witness:
  "PostCard (\<lambda>v. v \<noteq> []) example_page = Inr example_card
   \<and> length (buttons example_card) = 4
   \<and> list_all (\<lambda>b. click b example_page = example_page
          \<and> votes_sent (click b example_page) = votes_sent example_page
          \<and> PostCard (\<lambda>v. v \<noteq> []) (click b example_page) = Inr example_card)
        (buttons example_card)"
proof -
  have h: "PostCard (\<lambda>v. v \<noteq> []) example_page = Inr example_card"
    by (simp add: PostCard_def example_page_def example_card_def handleMultipleMedia_def)
  have l: "length (buttons example_card) = 4"
    by (simp add: example_card_def)
  show ?thesis
    using h l post_card_clicks_change_nothing [of "\<lambda>v. v \<noteq> []" example_page example_card]
    by simp
qed

end
